theory Spec2Isabelle
  imports Main
begin

section \<open>The sliding-window session tracker of adrianosela/slide\<close>

text \<open>
  A shallow embedding of the Go package \<^verbatim>\<open>slide\<close>: the \<^verbatim>\<open>Session\<close> struct with its
  eviction decision, and the \<^verbatim>\<open>tracker\<close> with \<^verbatim>\<open>EventStart\<close>, \<^verbatim>\<open>EventEnd\<close> and the
  janitor sweep.

  Conventions of the embedding.
  \<^item> A \<^verbatim>\<open>time.Time\<close> is its reading in nanoseconds, an \<^typ>\<open>int\<close>; a \<^verbatim>\<open>time.Duration\<close> is
    a number of nanoseconds. \<^verbatim>\<open>Time.Sub\<close> saturates at the bounds of a 64-bit duration, as
    the Go library does.
  \<^item> Every call of \<^verbatim>\<open>time.Now()\<close> is a parameter \<open>now\<close> of the operation that makes it.
  \<^item> A \<^verbatim>\<open>*Session[T]\<close> is an address: an index into the list \<open>heap\<close> of all sessions
    allocated so far. Allocation appends to the list, so the pointer equality of the
    source is equality of addresses.
  \<^item> The side effects outside the tracker are logs: \<open>initCalls\<close> records every call of
    the session initializer, \<open>ended\<close> every dispatch of the end-of-session callback (the
    address of the session, the payload passed and the metadata the passed pointer
    refers to at the dispatch).
  \<^item> Mutexes are not modelled. A call of \<^verbatim>\<open>EventStart\<close> or \<^verbatim>\<open>EventEnd\<close> runs its critical
    sections one after the other, and calls follow one another (\<open>run\<close>). The janitor
    runs beside the callers: it decides on a session under that session's lock only and
    removes it later under the store lock, so calls can come in between. Its decision
    writes nothing; its two removals are given on their own and, in \<open>execute\<close>, may happen
    at any moment between calls, for any entry. \<open>janitorTick\<close> is a tick that no call
    interrupts.
\<close>

subsection \<open>Time\<close>

type_synonym Time = int
type_synonym Duration = int

definition minDuration :: Duration where
  "minDuration = - (2 ^ 63)"

definition maxDuration :: Duration where
  "maxDuration = 2 ^ 63 - 1"

definition time_Sub :: "Time \<Rightarrow> Time \<Rightarrow> Duration" where
  \<comment> \<open>\<^verbatim>\<open>t.Sub(u)\<close>: the difference, or the largest (smallest) duration when it does not fit.\<close>
  "time_Sub t u = max minDuration (min maxDuration (t - u))"

subsection \<open>Sessions\<close>

record SessionMetadata =
  Created :: Time
  Updated :: Time

record 'd Session =
  data :: 'd
  events :: "string set"
  retired :: bool
  metadata :: SessionMetadata

definition janitorShouldRemove ::
  "Time \<Rightarrow> Duration \<Rightarrow> Duration option \<Rightarrow> 'd Session \<Rightarrow> bool" where
  "janitorShouldRemove now inactivityTimeout' maxSessionTimeout' s =
     (if events s = {} then
        (case maxSessionTimeout' of
           Some m \<Rightarrow> time_Sub now (Created (metadata s)) > m
         | None \<Rightarrow> time_Sub now (Updated (metadata s)) > inactivityTimeout')
      else False)"

subsection \<open>The tracker\<close>

type_synonym addr = nat

record 'd tracker =
  heap :: "'d Session list"
  sessions :: "string \<rightharpoonup> addr"
  eventToSession :: "string \<rightharpoonup> addr"
  retiredSessions :: "addr set"
  sessionInitFunc :: "string \<Rightarrow> 'd"
  inactivityTimeout :: Duration
  maxSessionTimeout :: "Duration option"
  onSessionEnd :: bool
  initCalls :: "string list"
  ended :: "(addr \<times> 'd \<times> SessionMetadata) list"

record config =
  cfg_janitorInterval :: Duration
  cfg_inactivityTimeout :: Duration
  cfg_maxSessionTimeout :: "Duration option"
  cfg_onSessionEnd :: bool

definition defaultConfig :: config where
  "defaultConfig =
     \<lparr>cfg_janitorInterval = 30 * 1000000000,
      cfg_inactivityTimeout = 15 * 60 * 1000000000,
      cfg_maxSessionTimeout = None,
      cfg_onSessionEnd = False\<rparr>"

definition WithJanitorInterval :: "Duration \<Rightarrow> config \<Rightarrow> config" where
  "WithJanitorInterval d c = c\<lparr>cfg_janitorInterval := d\<rparr>"

definition WithInactivityTimeout :: "Duration \<Rightarrow> config \<Rightarrow> config" where
  "WithInactivityTimeout d c = c\<lparr>cfg_inactivityTimeout := d\<rparr>"

definition WithMaxSessionTimeout :: "Duration \<Rightarrow> config \<Rightarrow> config" where
  "WithMaxSessionTimeout d c = c\<lparr>cfg_maxSessionTimeout := Some d\<rparr>"

definition WithOnSessionEnd :: "config \<Rightarrow> config" where
  "WithOnSessionEnd c = c\<lparr>cfg_onSessionEnd := True\<rparr>"

definition NewTracker :: "(string \<Rightarrow> 'd) \<Rightarrow> (config \<Rightarrow> config) list \<Rightarrow> 'd tracker" where
  "NewTracker initFunc opts =
     (let cfg = fold (\<lambda>opt c. opt c) opts defaultConfig in
      \<lparr>heap = [],
       sessions = Map.empty,
       eventToSession = Map.empty,
       retiredSessions = {},
       sessionInitFunc = initFunc,
       inactivityTimeout = cfg_inactivityTimeout cfg,
       maxSessionTimeout = cfg_maxSessionTimeout cfg,
       onSessionEnd = cfg_onSessionEnd cfg,
       initCalls = [],
       ended = []\<rparr>)"

definition installNewSession ::
  "string \<Rightarrow> string \<Rightarrow> Time \<Rightarrow> 'd tracker \<Rightarrow> addr \<times> 'd tracker" where
  \<comment> \<open>The block that \<^verbatim>\<open>EventStart\<close> has twice: allocate a session whose payload is the
      initializer's result, make it the primary session of the key, index the event.\<close>
  "installNewSession sessionDedupKey eventID now t =
     (let newSession = length (heap t) in
      (newSession,
       t\<lparr>heap := heap t @
            [\<lparr>data = sessionInitFunc t sessionDedupKey,
              events = {eventID},
              retired = False,
              metadata = \<lparr>Created = now, Updated = now\<rparr>\<rparr>],
         initCalls := initCalls t @ [sessionDedupKey],
         sessions := (sessions t)(sessionDedupKey \<mapsto> newSession),
         eventToSession := (eventToSession t)(eventID \<mapsto> newSession)\<rparr>))"

definition expired :: "Time \<Rightarrow> 'd tracker \<Rightarrow> addr \<Rightarrow> bool" where
  \<comment> \<open>The test of \<^verbatim>\<open>EventStart\<close>: a maximum lifetime is set and the session is older.\<close>
  "expired now t session =
     (case maxSessionTimeout t of
        Some m \<Rightarrow> time_Sub now (Created (metadata (heap t ! session))) > m
      | None \<Rightarrow> False)"

definition EventStart ::
  "string \<Rightarrow> string \<Rightarrow> Time \<Rightarrow> 'd tracker \<Rightarrow> addr \<times> 'd tracker" where
  "EventStart sessionDedupKey eventID now t =
     (case sessions t sessionDedupKey of
        Some session \<Rightarrow>
          if expired now t session then
            (let s = heap t ! session;
                 t1 = t\<lparr>heap := (heap t)[session := s\<lparr>retired := True,
                                                       events := events s - {eventID}\<rparr>],
                        retiredSessions := insert session (retiredSessions t)\<rparr>
             in installNewSession sessionDedupKey eventID now t1)
          else
            (let s = heap t ! session in
             (session,
              t\<lparr>heap := (heap t)[session := s\<lparr>events := insert eventID (events s),
                                              metadata := (metadata s)\<lparr>Updated := now\<rparr>\<rparr>],
                eventToSession := (eventToSession t)(eventID \<mapsto> session)\<rparr>))
      | None \<Rightarrow> installNewSession sessionDedupKey eventID now t)"

datatype error = NotAssociated string

definition dispatchOnSessionEnd :: "addr \<Rightarrow> 'd tracker \<Rightarrow> 'd tracker" where
  \<comment> \<open>\<^verbatim>\<open>if t.onSessionEnd != nil { go t.onSessionEnd(session.data, &session.metadata) }\<close>\<close>
  "dispatchOnSessionEnd session t =
     (if onSessionEnd t
      then t\<lparr>ended := ended t @
               [(session, data (heap t ! session), metadata (heap t ! session))]\<rparr>
      else t)"

definition EventEnd :: "string \<Rightarrow> Time \<Rightarrow> 'd tracker \<Rightarrow> error option \<times> 'd tracker" where
  "EventEnd eventID now t =
     (case eventToSession t eventID of
        None \<Rightarrow> (Some (NotAssociated eventID), t)
      | Some session \<Rightarrow>
          (let s = heap t ! session;
               s' = s\<lparr>events := events s - {eventID},
                      metadata := (metadata s)\<lparr>Updated := now\<rparr>\<rparr>;
               shouldDelete = (events s' = {} \<and> retired s');
               t1 = t\<lparr>heap := (heap t)[session := s'],
                      eventToSession := (eventToSession t)(eventID := None)\<rparr>
           in (None,
               if shouldDelete
               then dispatchOnSessionEnd session
                      (t1\<lparr>retiredSessions := retiredSessions t1 - {session}\<rparr>)
               else t1)))"

subsection \<open>The janitor\<close>

definition janitorRemoveSession :: "string \<Rightarrow> addr \<Rightarrow> 'd tracker \<Rightarrow> 'd tracker" where
  \<comment> \<open>The body of the test in the first loop: the deletion under the store lock, guarded
      by the identity check, and the callback.\<close>
  "janitorRemoveSession dedupKey session t =
     (if sessions t dedupKey = Some session
      then dispatchOnSessionEnd session (t\<lparr>sessions := (sessions t)(dedupKey := None)\<rparr>)
      else t)"

definition janitorVisitSession :: "Time \<Rightarrow> string \<times> addr \<Rightarrow> 'd tracker \<Rightarrow> 'd tracker" where
  "janitorVisitSession now entry t =
     (case entry of (dedupKey, session) \<Rightarrow>
        if janitorShouldRemove now (inactivityTimeout t) (maxSessionTimeout t) (heap t ! session)
        then janitorRemoveSession dedupKey session t
        else t)"

definition janitorRemoveRetired :: "addr \<Rightarrow> 'd tracker \<Rightarrow> 'd tracker" where
  "janitorRemoveRetired session t =
     dispatchOnSessionEnd session (t\<lparr>retiredSessions := retiredSessions t - {session}\<rparr>)"

definition janitorVisitRetired :: "Time \<Rightarrow> addr \<Rightarrow> 'd tracker \<Rightarrow> 'd tracker" where
  "janitorVisitRetired now session t =
     (if janitorShouldRemove now (inactivityTimeout t) (maxSessionTimeout t) (heap t ! session)
      then janitorRemoveRetired session t
      else t)"

definition snapshotOf :: "string list \<Rightarrow> 'd tracker \<Rightarrow> (string \<times> addr) list" where
  \<comment> \<open>The copy of \<^verbatim>\<open>t.sessions\<close>, ranged over in the order \<open>keys\<close> (Go leaves the order
      of a map iteration open).\<close>
  "snapshotOf keys t =
     concat (map (\<lambda>k. case sessions t k of Some a \<Rightarrow> [(k, a)] | None \<Rightarrow> [])
               (remdups keys))"

definition snapshotRetiredOf :: "addr list \<Rightarrow> 'd tracker \<Rightarrow> addr list" where
  \<comment> \<open>The copy of the keys of \<^verbatim>\<open>t.retiredSessions\<close>, in the order \<open>order\<close>.\<close>
  "snapshotRetiredOf order t = filter (\<lambda>a. a \<in> retiredSessions t) (remdups order)"

definition janitorTick :: "Time \<Rightarrow> string list \<Rightarrow> addr list \<Rightarrow> 'd tracker \<Rightarrow> 'd tracker" where
  \<comment> \<open>One tick of the janitor with nothing running beside it.\<close>
  "janitorTick now keys order t =
     (let t1 = fold (janitorVisitSession now) (snapshotOf keys t) t
      in fold (janitorVisitRetired now) (snapshotRetiredOf order t1) t1)"

subsection \<open>Runs\<close>

datatype call =
  Start string string Time
| End string Time

fun step :: "call \<Rightarrow> 'd tracker \<Rightarrow> 'd tracker" where
  "step (Start k e now) t = snd (EventStart k e now t)"
| "step (End e now) t = snd (EventEnd e now t)"

definition run :: "call list \<Rightarrow> 'd tracker \<Rightarrow> 'd tracker" where
  \<comment> \<open>A sequence of \<^verbatim>\<open>EventStart\<close> and \<^verbatim>\<open>EventEnd\<close> calls.\<close>
  "run calls t = fold step calls t"

datatype action =
  Call call
| Remove string addr
| RemoveRetired addr

fun act :: "action \<Rightarrow> 'd tracker \<Rightarrow> 'd tracker" where
  \<comment> \<open>\<open>Remove k s\<close> is the locked section of the first loop of the janitor for a snapshot
      entry \<open>(k, s)\<close> it has decided to evict, \<open>RemoveRetired s\<close> that of the second loop
      for a session of the retired snapshot (an allocated session). Neither looks at
      the decision again, as in the source.\<close>
  "act (Call c) t = step c t"
| "act (Remove dedupKey session) t = janitorRemoveSession dedupKey session t"
| "act (RemoveRetired session) t =
     (if session < length (heap t) then janitorRemoveRetired session t else t)"

definition execute :: "action list \<Rightarrow> 'd tracker \<Rightarrow> 'd tracker" where
  \<comment> \<open>A sequence of calls with removals of the janitor between them, at any moment and
      for any entry. A removal holds the store lock, which \<^verbatim>\<open>EventStart\<close> holds throughout,
      and writes only the primary map, the retired set and the log, none of which
      \<^verbatim>\<open>EventEnd\<close> reads: whatever the janitor does beside the sequence is among these.\<close>
  "execute acts t = fold act acts t"

fun startAll :: "string \<Rightarrow> (string \<times> Time) list \<Rightarrow> 'd tracker \<Rightarrow> addr list \<times> 'd tracker" where
  \<comment> \<open>A sequence of \<^verbatim>\<open>EventStart\<close> calls for one dedup key, with the sessions returned.\<close>
  "startAll k [] t = ([], t)"
| "startAll k ((e, now) # rest) t =
     (case EventStart k e now t of (a, t1) \<Rightarrow>
        (case startAll k rest t1 of (as, t2) \<Rightarrow> (a # as, t2)))"


fun removalsOfDrained :: "action list \<Rightarrow> 'd tracker \<Rightarrow> bool" where
  \<comment> \<open>Every session that a removal of the janitor takes out of the store has no open
      event at the moment of the removal: no call has overtaken the decision.\<close>
  "removalsOfDrained [] t = True"
| "removalsOfDrained (Remove k s # acts) t =
     ((sessions t k = Some s \<longrightarrow> events (heap t ! s) = {}) \<and>
      removalsOfDrained acts (act (Remove k s) t))"
| "removalsOfDrained (RemoveRetired s # acts) t =
     ((s \<in> retiredSessions t \<longrightarrow> events (heap t ! s) = {}) \<and>
      removalsOfDrained acts (act (RemoveRetired s) t))"
| "removalsOfDrained (a # acts) t = removalsOfDrained acts (act a t)"

subsection \<open>Consistency of the two indexes\<close>

definition tracked :: "'d tracker \<Rightarrow> addr set" where
  \<comment> \<open>The live sessions (primary for some key) and the retired ones.\<close>
  "tracked t = ran (sessions t) \<union> retiredSessions t"

definition allocated :: "'d tracker \<Rightarrow> bool" where
  \<comment> \<open>Every pointer stored in the tracker points to a session that was allocated.\<close>
  "allocated t \<longleftrightarrow>
     (\<forall>k a. sessions t k = Some a \<longrightarrow> a < length (heap t)) \<and>
     (\<forall>e a. eventToSession t e = Some a \<longrightarrow> a < length (heap t)) \<and>
     (\<forall>a \<in> retiredSessions t. a < length (heap t))"

definition indexedAreOpen :: "'d tracker \<Rightarrow> bool" where
  \<comment> \<open>Every entry of the reverse index maps an event to a session that holds the event
      open.\<close>
  "indexedAreOpen t \<longleftrightarrow>
     (\<forall>e a. eventToSession t e = Some a \<longrightarrow> e \<in> events (heap t ! a))"

definition indexedAreTracked :: "'d tracker \<Rightarrow> bool" where
  \<comment> \<open>Every entry of the reverse index maps to a live or retired session.\<close>
  "indexedAreTracked t \<longleftrightarrow> (\<forall>e a. eventToSession t e = Some a \<longrightarrow> a \<in> tracked t)"

definition openAreIndexed :: "'d tracker \<Rightarrow> bool" where
  \<comment> \<open>Every open event of a live or retired session is indexed to that session.\<close>
  "openAreIndexed t \<longleftrightarrow>
     (\<forall>a \<in> tracked t. \<forall>e \<in> events (heap t ! a). eventToSession t e = Some a)"

definition wellIndexed :: "'d tracker \<Rightarrow> bool" where
  \<comment> \<open>What every interleaving maintains, whatever the strings it is given.\<close>
  "wellIndexed t \<longleftrightarrow> allocated t \<and> indexedAreOpen t"

definition finiteIndexes :: "'d tracker \<Rightarrow> bool" where
  \<comment> \<open>The Go maps are finite.\<close>
  "finiteIndexes t \<longleftrightarrow>
     finite (dom (sessions t)) \<and> finite (dom (eventToSession t)) \<and> finite (retiredSessions t)"

fun startsUnambiguous :: "call list \<Rightarrow> 'd tracker \<Rightarrow> bool" where
  \<comment> \<open>No \<^verbatim>\<open>EventStart\<close> of the run is given an event identifier that is open, at that
      moment, in a session other than the primary session of its dedup key.\<close>
  "startsUnambiguous [] t = True"
| "startsUnambiguous (Start k e now # calls) t =
     ((eventToSession t e = None \<or> eventToSession t e = sessions t k) \<and>
      startsUnambiguous calls (step (Start k e now) t))"
| "startsUnambiguous (c # calls) t = startsUnambiguous calls (step c t)"

subsection \<open>Example trackers\<close>

definition splitTracker :: "string tracker" where
  "splitTracker =
     NewTracker (\<lambda>k. k) [WithInactivityTimeout 5, WithMaxSessionTimeout 2, WithOnSessionEnd]"

definition idleTracker :: "string tracker" where
  "idleTracker = NewTracker (\<lambda>k. k) [WithInactivityTimeout 5, WithOnSessionEnd]"

definition idleSession :: "string Session" where
  "idleSession =
     \<lparr>data = ''x'', events = {}, retired = False, metadata = \<lparr>Created = 0, Updated = 10\<rparr>\<rparr>"

definition replacedTracker :: "string tracker" where
  \<comment> \<open>The session of key \<open>x\<close> that a snapshot taken after the second call holds (address
      0) has been replaced by a split (address 1) when the snapshot is worked through.\<close>
  "replacedTracker =
     run [Start ''x'' ''a'' 0, End ''a'' 1, Start ''x'' ''b'' 5, End ''b'' 6] splitTracker"

definition twoOpenTracker :: "string tracker" where
  "twoOpenTracker = run [Start ''x'' ''a'' 0, Start ''x'' ''c'' 1] splitTracker"

definition drainingTracker :: "string tracker" where
  \<comment> \<open>Session 0 is retired with the open event \<open>a\<close>; session 1 is primary with \<open>b\<close>.\<close>
  "drainingTracker = run [Start ''x'' ''a'' 0, Start ''x'' ''b'' 3] splitTracker"

definition emptiedRetiredTracker :: "string tracker" where
  \<comment> \<open>Session 0 is retired and has no open event left.\<close>
  "emptiedRetiredTracker =
     run [Start ''x'' ''a'' 0, End ''a'' 1, Start ''x'' ''b'' 3] splitTracker"

definition lifetimeTracker :: "string tracker" where
  "lifetimeTracker = NewTracker (\<lambda>k. k) [WithMaxSessionTimeout 10]"

definition sharedEventTracker :: "string tracker" where
  \<comment> \<open>The event identifier \<open>a\<close> is started for two dedup keys.\<close>
  "sharedEventTracker = run [Start ''x'' ''a'' 0, Start ''y'' ''a'' 1] idleTracker"

definition decidedTracker :: "string tracker" where
  \<comment> \<open>Session 0, the primary session of \<open>x\<close>, has no open event and was updated at 1.\<close>
  "decidedTracker = run [Start ''x'' ''a'' 0, End ''a'' 1] idleTracker"

definition overtakenTracker :: "string tracker" where
  \<comment> \<open>The janitor of the tick at time 7 has decided to evict session 0 of
      \<open>decidedTracker\<close>; \<^verbatim>\<open>EventStart("x", "b")\<close> at time 8 reuses the session before the
      janitor takes the store lock and removes it.\<close>
  "overtakenTracker =
     janitorRemoveSession ''x'' 0 (snd (EventStart ''x'' ''b'' 8 decidedTracker))"

lemmas eval_defs =
  run_def NewTracker_def defaultConfig_def WithJanitorInterval_def WithInactivityTimeout_def
  WithMaxSessionTimeout_def WithOnSessionEnd_def EventStart_def EventEnd_def
  installNewSession_def expired_def dispatchOnSessionEnd_def janitorRemoveSession_def
  janitorVisitSession_def janitorRemoveRetired_def janitorVisitRetired_def snapshotOf_def
  snapshotRetiredOf_def janitorTick_def janitorShouldRemove_def time_Sub_def minDuration_def
  maxDuration_def Let_def splitTracker_def idleTracker_def idleSession_def
  replacedTracker_def twoOpenTracker_def drainingTracker_def emptiedRetiredTracker_def
  lifetimeTracker_def execute_def decidedTracker_def overtakenTracker_def

section \<open>Properties\<close>

subsection \<open>Auxiliary facts\<close>

lemma time_Sub_exact:
  "minDuration \<le> t - u \<Longrightarrow> t - u \<le> maxDuration \<Longrightarrow> time_Sub t u = t - u"
  by (simp add: time_Sub_def)

lemma heap_dispatchOnSessionEnd [simp]: "heap (dispatchOnSessionEnd a t) = heap t"
  by (simp add: dispatchOnSessionEnd_def)

lemma janitorVisitSession_frame:
  "heap (janitorVisitSession now x t) = heap t \<and>
   retiredSessions (janitorVisitSession now x t) = retiredSessions t \<and>
   eventToSession (janitorVisitSession now x t) = eventToSession t \<and>
   inactivityTimeout (janitorVisitSession now x t) = inactivityTimeout t \<and>
   maxSessionTimeout (janitorVisitSession now x t) = maxSessionTimeout t \<and>
   onSessionEnd (janitorVisitSession now x t) = onSessionEnd t"
  by (simp add: janitorVisitSession_def janitorRemoveSession_def dispatchOnSessionEnd_def
      split: prod.splits)

lemma fold_janitorVisitSession_frame:
  "heap (fold (janitorVisitSession now) xs t) = heap t \<and>
   retiredSessions (fold (janitorVisitSession now) xs t) = retiredSessions t \<and>
   eventToSession (fold (janitorVisitSession now) xs t) = eventToSession t \<and>
   inactivityTimeout (fold (janitorVisitSession now) xs t) = inactivityTimeout t \<and>
   maxSessionTimeout (fold (janitorVisitSession now) xs t) = maxSessionTimeout t \<and>
   onSessionEnd (fold (janitorVisitSession now) xs t) = onSessionEnd t"
  by (induction xs arbitrary: t) (simp_all add: janitorVisitSession_frame)

lemma janitorVisitRetired_frame:
  "heap (janitorVisitRetired now x t) = heap t \<and>
   sessions (janitorVisitRetired now x t) = sessions t \<and>
   eventToSession (janitorVisitRetired now x t) = eventToSession t \<and>
   inactivityTimeout (janitorVisitRetired now x t) = inactivityTimeout t \<and>
   maxSessionTimeout (janitorVisitRetired now x t) = maxSessionTimeout t \<and>
   onSessionEnd (janitorVisitRetired now x t) = onSessionEnd t"
  by (simp add: janitorVisitRetired_def janitorRemoveRetired_def dispatchOnSessionEnd_def)

lemma fold_janitorVisitRetired_frame:
  "heap (fold (janitorVisitRetired now) xs t) = heap t \<and>
   sessions (fold (janitorVisitRetired now) xs t) = sessions t \<and>
   eventToSession (fold (janitorVisitRetired now) xs t) = eventToSession t \<and>
   inactivityTimeout (fold (janitorVisitRetired now) xs t) = inactivityTimeout t \<and>
   maxSessionTimeout (fold (janitorVisitRetired now) xs t) = maxSessionTimeout t \<and>
   onSessionEnd (fold (janitorVisitRetired now) xs t) = onSessionEnd t"
  by (induction xs arbitrary: t) (simp_all add: janitorVisitRetired_frame)

lemma ended_fold_janitorVisitSession_other:
  "\<not> janitorShouldRemove now (inactivityTimeout t) (maxSessionTimeout t) (heap t ! a) \<Longrightarrow>
   filter (\<lambda>x. fst x = a) (ended (fold (janitorVisitSession now) xs t)) =
   filter (\<lambda>x. fst x = a) (ended t)"
proof (induction xs arbitrary: t)
  case Nil
  show ?case by simp
next
  case (Cons x xs)
  have keep: "\<not> janitorShouldRemove now (inactivityTimeout (janitorVisitSession now x t))
      (maxSessionTimeout (janitorVisitSession now x t)) (heap (janitorVisitSession now x t) ! a)"
    using Cons.prems by (simp add: janitorVisitSession_frame)
  have one: "filter (\<lambda>y. fst y = a) (ended (janitorVisitSession now x t)) =
      filter (\<lambda>y. fst y = a) (ended t)"
    using Cons.prems
    by (auto simp add: janitorVisitSession_def janitorRemoveSession_def dispatchOnSessionEnd_def
        split: prod.splits)
  show ?case using Cons.IH [OF keep] one by simp
qed

lemma retiredSessions_fold_janitorVisitRetired:
  "retiredSessions (fold (janitorVisitRetired now) xs t) =
   retiredSessions t -
     {a \<in> set xs. janitorShouldRemove now (inactivityTimeout t) (maxSessionTimeout t) (heap t ! a)}"
proof (induction xs arbitrary: t)
  case Nil
  show ?case by simp
next
  case (Cons x xs)
  have one: "retiredSessions (janitorVisitRetired now x t) =
      (if janitorShouldRemove now (inactivityTimeout t) (maxSessionTimeout t) (heap t ! x)
       then retiredSessions t - {x} else retiredSessions t)"
    by (simp add: janitorVisitRetired_def janitorRemoveRetired_def dispatchOnSessionEnd_def)
  show ?case
    by (auto simp add: Cons.IH janitorVisitRetired_frame one)
qed

lemma ended_fold_janitorVisitRetired:
  "ended (fold (janitorVisitRetired now) xs t) =
   ended t @
   (if onSessionEnd t
    then map (\<lambda>a. (a, data (heap t ! a), metadata (heap t ! a)))
           (filter (\<lambda>a. janitorShouldRemove now (inactivityTimeout t) (maxSessionTimeout t)
                          (heap t ! a)) xs)
    else [])"
proof (induction xs arbitrary: t)
  case Nil
  show ?case by simp
next
  case (Cons x xs)
  have one: "ended (janitorVisitRetired now x t) =
      (if janitorShouldRemove now (inactivityTimeout t) (maxSessionTimeout t) (heap t ! x)
          \<and> onSessionEnd t
       then ended t @ [(x, data (heap t ! x), metadata (heap t ! x))] else ended t)"
    by (simp add: janitorVisitRetired_def janitorRemoveRetired_def dispatchOnSessionEnd_def)
  show ?case
    by (simp add: Cons.IH janitorVisitRetired_frame one)
qed

lemma startAll_Cons:
  "startAll k ((e, now) # rest) t =
     (fst (EventStart k e now t) # fst (startAll k rest (snd (EventStart k e now t))),
      snd (startAll k rest (snd (EventStart k e now t))))"
  by (simp add: case_prod_unfold)

lemma startAll_reuse:
  assumes "sessions t k = Some a" and "a < length (heap t)"
    and "\<forall>c \<in> set calls. \<not> expired (snd c) t a"
  shows "fst (startAll k calls t) = replicate (length calls) a \<and>
    sessions (snd (startAll k calls t)) k = Some a \<and>
    initCalls (snd (startAll k calls t)) = initCalls t \<and>
    length (heap (snd (startAll k calls t))) = length (heap t) \<and>
    data (heap (snd (startAll k calls t)) ! a) = data (heap t ! a) \<and>
    retired (heap (snd (startAll k calls t)) ! a) = retired (heap t ! a) \<and>
    Created (metadata (heap (snd (startAll k calls t)) ! a)) = Created (metadata (heap t ! a)) \<and>
    events (heap (snd (startAll k calls t)) ! a) = events (heap t ! a) \<union> fst ` set calls \<and>
    Updated (metadata (heap (snd (startAll k calls t)) ! a)) =
      (if calls = [] then Updated (metadata (heap t ! a)) else snd (last calls))"
  using assms
proof (induction calls arbitrary: t)
  case Nil
  then show ?case by simp
next
  case (Cons c calls)
  obtain e now where c: "c = (e, now)" by (cases c)
  let ?t1 = "snd (EventStart k e now t)"
  have ne: "\<not> expired now t a" using Cons.prems(3) c by simp
  have r: "fst (EventStart k e now t) = a"
    using Cons.prems(1) ne by (simp add: EventStart_def Let_def)
  have t1: "?t1 = t\<lparr>heap := (heap t)[a := (heap t ! a)\<lparr>events := insert e (events (heap t ! a)),
                 metadata := (metadata (heap t ! a))\<lparr>Updated := now\<rparr>\<rparr>],
               eventToSession := (eventToSession t)(e \<mapsto> a)\<rparr>"
    using Cons.prems(1) ne by (simp add: EventStart_def Let_def)
  have p1: "sessions ?t1 k = Some a" and p2: "a < length (heap ?t1)"
    using Cons.prems(1,2) by (simp_all add: t1)
  have p3: "\<forall>c \<in> set calls. \<not> expired (snd c) ?t1 a"
    using Cons.prems(2,3) by (auto simp add: t1 expired_def split: option.splits)
  note ih = Cons.IH [OF p1 p2 p3]
  have unfold: "startAll k ((e, now) # calls) t =
      (a # fst (startAll k calls ?t1), snd (startAll k calls ?t1))"
    using r by (simp only: startAll_Cons)
  show ?case
    using ih Cons.prems(2) unfolding c
    by (auto simp add: unfold t1 simp del: startAll.simps)
qed

subsection \<open>What every interleaving maintains\<close>

lemma EventStart_cases:
  "snd (EventStart k e now t) =
     (case sessions t k of
        None \<Rightarrow>
          t\<lparr>heap := heap t @ [\<lparr>data = sessionInitFunc t k, events = {e}, retired = False,
                         metadata = \<lparr>Created = now, Updated = now\<rparr>\<rparr>],
            initCalls := initCalls t @ [k],
            sessions := (sessions t)(k \<mapsto> length (heap t)),
            eventToSession := (eventToSession t)(e \<mapsto> length (heap t))\<rparr>
      | Some s \<Rightarrow>
          if expired now t s then
            t\<lparr>heap := (heap t)[s := (heap t ! s)\<lparr>retired := True,
                                       events := events (heap t ! s) - {e}\<rparr>] @
                       [\<lparr>data = sessionInitFunc t k, events = {e}, retired = False,
                         metadata = \<lparr>Created = now, Updated = now\<rparr>\<rparr>],
              retiredSessions := insert s (retiredSessions t),
              initCalls := initCalls t @ [k],
              sessions := (sessions t)(k \<mapsto> length (heap t)),
              eventToSession := (eventToSession t)(e \<mapsto> length (heap t))\<rparr>
          else
            t\<lparr>heap := (heap t)[s := (heap t ! s)\<lparr>events := insert e (events (heap t ! s)),
                              metadata := (metadata (heap t ! s))\<lparr>Updated := now\<rparr>\<rparr>],
              eventToSession := (eventToSession t)(e \<mapsto> s)\<rparr>)"
  by (simp add: EventStart_def installNewSession_def Let_def split: option.splits)

lemma wellIndexed_EventStart:
  assumes "wellIndexed t"
  shows "wellIndexed (snd (EventStart k e now t))"
proof (cases "sessions t k")
  case None
  then show ?thesis
    using assms
    by (auto simp add: EventStart_cases wellIndexed_def allocated_def indexedAreOpen_def
        nth_append less_Suc_eq)
next
  case (Some s)
  have s: "s < length (heap t)" using assms Some by (simp add: wellIndexed_def allocated_def)
  show ?thesis
    using assms Some s
    by (auto simp add: EventStart_cases wellIndexed_def allocated_def indexedAreOpen_def
        nth_append nth_list_update less_Suc_eq)
qed

lemma wellIndexed_EventEnd:
  assumes "wellIndexed t"
  shows "wellIndexed (snd (EventEnd e now t))"
proof (cases "eventToSession t e")
  case None
  then show ?thesis using assms by (simp add: EventEnd_def)
next
  case (Some s)
  have s: "s < length (heap t)" using assms Some by (simp add: wellIndexed_def allocated_def)
  show ?thesis
    using assms Some s
    by (auto simp add: EventEnd_def Let_def dispatchOnSessionEnd_def wellIndexed_def
        allocated_def indexedAreOpen_def nth_list_update)
qed

lemma wellIndexed_janitorRemoveSession:
  "wellIndexed t \<Longrightarrow> wellIndexed (janitorRemoveSession k a t)"
  by (auto simp add: janitorRemoveSession_def dispatchOnSessionEnd_def wellIndexed_def
      allocated_def indexedAreOpen_def split: if_splits)

lemma wellIndexed_janitorRemoveRetired:
  "wellIndexed t \<Longrightarrow> wellIndexed (janitorRemoveRetired a t)"
  by (auto simp add: janitorRemoveRetired_def dispatchOnSessionEnd_def wellIndexed_def
      allocated_def indexedAreOpen_def)

lemma wellIndexed_step: "wellIndexed t \<Longrightarrow> wellIndexed (step c t)"
  by (cases c) (simp_all add: wellIndexed_EventStart wellIndexed_EventEnd)

lemma wellIndexed_act: "wellIndexed t \<Longrightarrow> wellIndexed (act a t)"
  by (cases a)
    (simp_all add: wellIndexed_step wellIndexed_janitorRemoveSession
      wellIndexed_janitorRemoveRetired)

lemma wellIndexed_execute: "wellIndexed t \<Longrightarrow> wellIndexed (execute acts t)"
  unfolding execute_def by (induction acts arbitrary: t) (simp_all add: wellIndexed_act)

lemma wellIndexed_run: "wellIndexed t \<Longrightarrow> wellIndexed (run calls t)"
  unfolding run_def by (induction calls arbitrary: t) (simp_all add: wellIndexed_step)

lemma wellIndexed_NewTracker: "wellIndexed (NewTracker init opts)"
  by (simp add: NewTracker_def Let_def wellIndexed_def allocated_def indexedAreOpen_def)


lemma eventToSession_EventEnd:
  "eventToSession (snd (EventEnd e now t)) = (eventToSession t)(e := None)"
  by (auto simp add: EventEnd_def Let_def dispatchOnSessionEnd_def split: option.splits)

lemma eventToSession_janitorRemoveSession:
  "eventToSession (janitorRemoveSession k a t) = eventToSession t"
  by (simp add: janitorRemoveSession_def dispatchOnSessionEnd_def)

lemma eventToSession_janitorRemoveRetired:
  "eventToSession (janitorRemoveRetired a t) = eventToSession t"
  by (simp add: janitorRemoveRetired_def dispatchOnSessionEnd_def)






subsection \<open>What removals of sessions without open events maintain\<close>

lemma indexedAreTracked_EventStart:
  assumes "wellIndexed t" and "indexedAreTracked t"
  shows "indexedAreTracked (snd (EventStart k e now t))"
proof (cases "sessions t k")
  case None
  then show ?thesis
    using assms
    apply (simp add: EventStart_cases indexedAreTracked_def tracked_def ran_def)
    apply (metis option.distinct(1))
    done
next
  case (Some s)
  show ?thesis
  proof (cases "expired now t s")
    case True
    then show ?thesis
      using assms Some
      apply (simp add: EventStart_cases indexedAreTracked_def tracked_def ran_def)
      apply (metis option.inject)
      done
  next
    case False
    then show ?thesis
      using assms Some
      by (auto simp add: EventStart_cases indexedAreTracked_def tracked_def ran_def)
  qed
qed

lemma indexedAreTracked_EventEnd:
  assumes "wellIndexed t" and "indexedAreTracked t"
  shows "indexedAreTracked (snd (EventEnd e now t))"
proof (cases "eventToSession t e")
  case None
  then show ?thesis using assms by (simp add: EventEnd_def)
next
  case (Some s)
  have gone: "eventToSession t e' \<noteq> Some s"
    if "events (heap t ! s) - {e} = {}" and "e' \<noteq> e" for e'
    using that assms(1) by (auto simp add: wellIndexed_def indexedAreOpen_def)
  show ?thesis
    unfolding indexedAreTracked_def
  proof (intro allI impI)
    fix e' a
    assume i: "eventToSession (snd (EventEnd e now t)) e' = Some a"
    then have ne: "e' \<noteq> e" and old: "eventToSession t e' = Some a"
      by (auto simp add: eventToSession_EventEnd split: if_splits)
    have at: "a \<in> tracked t" using assms(2) old by (simp add: indexedAreTracked_def)
    show "a \<in> tracked (snd (EventEnd e now t))"
    proof (cases "events (heap t ! s) - {e} = {} \<and> retired (heap t ! s)")
      case True
      then have "a \<noteq> s" using gone [of e'] ne old by auto
      then show ?thesis
        using at Some True
        by (auto simp add: EventEnd_def Let_def dispatchOnSessionEnd_def tracked_def)
    next
      case False
      then show ?thesis
        using at Some
        by (auto simp add: EventEnd_def Let_def dispatchOnSessionEnd_def tracked_def)
    qed
  qed
qed

lemma indexedAreTracked_janitorRemoveSession:
  assumes "wellIndexed t" and "indexedAreTracked t"
    and "sessions t k = Some a \<longrightarrow> events (heap t ! a) = {}"
  shows "indexedAreTracked (janitorRemoveSession k a t)"
proof (cases "sessions t k = Some a")
  case False
  then show ?thesis using assms(2) by (simp add: janitorRemoveSession_def)
next
  case True
  then have empty: "events (heap t ! a) = {}" using assms(3) by simp
  show ?thesis
    unfolding indexedAreTracked_def
  proof (intro allI impI)
    fix e b
    assume "eventToSession (janitorRemoveSession k a t) e = Some b"
    then have i: "eventToSession t e = Some b"
      by (simp add: eventToSession_janitorRemoveSession)
    then have "e \<in> events (heap t ! b)"
      using assms(1) by (simp add: wellIndexed_def indexedAreOpen_def)
    then have ne: "b \<noteq> a" using empty by auto
    have "b \<in> tracked t" using assms(2) i by (simp add: indexedAreTracked_def)
    then consider k' where "sessions t k' = Some b" | "b \<in> retiredSessions t"
      by (auto simp add: tracked_def ran_def)
    then show "b \<in> tracked (janitorRemoveSession k a t)"
    proof cases
      case 1
      then have "k' \<noteq> k" using True ne by auto
      then have "sessions (janitorRemoveSession k a t) k' = Some b"
        using 1 True by (simp add: janitorRemoveSession_def dispatchOnSessionEnd_def)
      then show ?thesis by (auto simp add: tracked_def ran_def)
    next
      case 2
      then show ?thesis
        by (simp add: janitorRemoveSession_def dispatchOnSessionEnd_def tracked_def)
    qed
  qed
qed

lemma indexedAreTracked_janitorRemoveRetired:
  assumes "wellIndexed t" and "indexedAreTracked t"
    and "a \<in> retiredSessions t \<longrightarrow> events (heap t ! a) = {}"
  shows "indexedAreTracked (janitorRemoveRetired a t)"
  unfolding indexedAreTracked_def
proof (intro allI impI)
  fix e b
  assume "eventToSession (janitorRemoveRetired a t) e = Some b"
  then have i: "eventToSession t e = Some b"
    by (simp add: eventToSession_janitorRemoveRetired)
  then have o: "e \<in> events (heap t ! b)"
    using assms(1) by (simp add: wellIndexed_def indexedAreOpen_def)
  have "b \<in> tracked t" using assms(2) i by (simp add: indexedAreTracked_def)
  then show "b \<in> tracked (janitorRemoveRetired a t)"
    using o assms(3)
    by (auto simp add: janitorRemoveRetired_def dispatchOnSessionEnd_def tracked_def)
qed

lemma indexedAreTracked_execute:
  "removalsOfDrained acts t \<Longrightarrow> wellIndexed t \<Longrightarrow> indexedAreTracked t \<Longrightarrow>
   indexedAreTracked (execute acts t)"
proof (induction acts arbitrary: t)
  case Nil
  then show ?case by (simp add: execute_def)
next
  case (Cons a acts)
  have e: "execute (a # acts) t = execute acts (act a t)" by (simp add: execute_def)
  have w: "wellIndexed (act a t)" using Cons.prems(2) by (rule wellIndexed_act)
  have i: "indexedAreTracked (act a t)" and d: "removalsOfDrained acts (act a t)"
  proof -
    show "indexedAreTracked (act a t)"
    proof (cases a)
      case (Call c)
      then show ?thesis
        using Cons.prems(2,3)
        by (cases c) (simp_all add: indexedAreTracked_EventStart indexedAreTracked_EventEnd)
    next
      case (Remove k s)
      then show ?thesis
        using Cons.prems by (simp add: indexedAreTracked_janitorRemoveSession)
    next
      case (RemoveRetired s)
      then show ?thesis
        using Cons.prems by (simp add: indexedAreTracked_janitorRemoveRetired)
    qed
    show "removalsOfDrained acts (act a t)"
      using Cons.prems(1) by (cases a) simp_all
  qed
  show ?case using Cons.IH [OF d w i] e by simp
qed

lemma indexedAreTracked_NewTracker: "indexedAreTracked (NewTracker init opts)"
  by (simp add: NewTracker_def Let_def indexedAreTracked_def)

lemma execute_Call: "execute (map Call calls) t = run calls t"
  by (induction calls arbitrary: t) (simp_all add: execute_def run_def)

lemma removalsOfDrained_Call: "removalsOfDrained (map Call calls) t"
  by (induction calls arbitrary: t) simp_all

lemma indexedAreTracked_run:
  "wellIndexed t \<Longrightarrow> indexedAreTracked t \<Longrightarrow> indexedAreTracked (run calls t)"
  using indexedAreTracked_execute [OF removalsOfDrained_Call, of t calls]
  by (simp add: execute_Call)

subsection \<open>What sequences of calls with unambiguous starts maintain\<close>

lemma tracked_session: "sessions t k = Some a \<Longrightarrow> a \<in> tracked t"
  by (auto simp add: tracked_def ran_def)

lemma tracked_allocated: "wellIndexed t \<Longrightarrow> a \<in> tracked t \<Longrightarrow> a < length (heap t)"
  by (auto simp add: wellIndexed_def allocated_def tracked_def ran_def)

lemma openAreIndexedD:
  "openAreIndexed t \<Longrightarrow> a \<in> tracked t \<Longrightarrow> e \<in> events (heap t ! a) \<Longrightarrow>
   eventToSession t e = Some a"
  by (simp add: openAreIndexed_def)

lemma openAreIndexed_EventStart:
  assumes w: "wellIndexed t" and o: "openAreIndexed t"
    and u: "eventToSession t e = None \<or> eventToSession t e = sessions t k"
  shows "openAreIndexed (snd (EventStart k e now t))"
proof (cases "sessions t k")
  case None
  have fresh: "\<forall>a \<in> tracked t. a < length (heap t) \<and> e \<notin> events (heap t ! a)"
  proof
    fix a assume a: "a \<in> tracked t"
    have "e \<notin> events (heap t ! a)"
      using openAreIndexedD [OF o a, of e] u None by auto
    then show "a < length (heap t) \<and> e \<notin> events (heap t ! a)"
      using tracked_allocated [OF w a] by simp
  qed
  have sub: "tracked (snd (EventStart k e now t)) \<subseteq> insert (length (heap t)) (tracked t)"
    using None by (auto simp add: EventStart_cases tracked_def ran_def split: if_splits)
  show ?thesis
    unfolding openAreIndexed_def
  proof (intro ballI)
    fix a e'
    assume a: "a \<in> tracked (snd (EventStart k e now t))"
      and e': "e' \<in> events (heap (snd (EventStart k e now t)) ! a)"
    show "eventToSession (snd (EventStart k e now t)) e' = Some a"
    proof (cases "a = length (heap t)")
      case True
      then show ?thesis using e' None by (simp add: EventStart_cases)
    next
      case False
      then have at: "a \<in> tracked t" using a sub by auto
      then have "a < length (heap t)" "e \<notin> events (heap t ! a)" using fresh by auto
      then show ?thesis
        using e' None at o
        by (auto simp add: EventStart_cases nth_append openAreIndexed_def)
    qed
  qed
next
  case (Some s)
  have s: "s < length (heap t)" using w Some by (simp add: wellIndexed_def allocated_def)
  have st: "s \<in> tracked t" using Some by (rule tracked_session)
  have other: "\<forall>a \<in> tracked t. a < length (heap t) \<and> (a \<noteq> s \<longrightarrow> e \<notin> events (heap t ! a))"
  proof
    fix a assume a: "a \<in> tracked t"
    have "a \<noteq> s \<longrightarrow> e \<notin> events (heap t ! a)"
      using openAreIndexedD [OF o a, of e] u Some by auto
    then show "a < length (heap t) \<and> (a \<noteq> s \<longrightarrow> e \<notin> events (heap t ! a))"
      using tracked_allocated [OF w a] by simp
  qed
  show ?thesis
  proof (cases "expired now t s")
    case True
    have sub: "tracked (snd (EventStart k e now t)) \<subseteq> insert (length (heap t)) (tracked t)"
      using Some True st
      by (auto simp add: EventStart_cases tracked_def ran_def split: if_splits)
    show ?thesis
      unfolding openAreIndexed_def
    proof (intro ballI)
      fix a e'
      assume a: "a \<in> tracked (snd (EventStart k e now t))"
        and e': "e' \<in> events (heap (snd (EventStart k e now t)) ! a)"
      show "eventToSession (snd (EventStart k e now t)) e' = Some a"
      proof (cases "a = length (heap t)")
        case True
        then show ?thesis
          using e' Some \<open>expired now t s\<close> s by (simp add: EventStart_cases nth_append)
      next
        case False
        then have at: "a \<in> tracked t" using a sub by auto
        then have al: "a < length (heap t)" and ne: "a \<noteq> s \<longrightarrow> e \<notin> events (heap t ! a)"
          using other by auto
        show ?thesis
          using e' Some \<open>expired now t s\<close> at o al ne s
          by (auto simp add: EventStart_cases nth_append nth_list_update openAreIndexed_def
              split: if_splits)
      qed
    qed
  next
    case False
    have sub: "tracked (snd (EventStart k e now t)) = tracked t"
      using Some False by (simp add: EventStart_cases tracked_def)
    show ?thesis
      unfolding openAreIndexed_def
    proof (intro ballI)
      fix a e'
      assume a: "a \<in> tracked (snd (EventStart k e now t))"
        and e': "e' \<in> events (heap (snd (EventStart k e now t)) ! a)"
      have at: "a \<in> tracked t" using a sub by simp
      then have al: "a < length (heap t)" and ne: "a \<noteq> s \<longrightarrow> e \<notin> events (heap t ! a)"
        using other by auto
      show "eventToSession (snd (EventStart k e now t)) e' = Some a"
        using e' Some False at o al ne s
        by (auto simp add: EventStart_cases nth_list_update openAreIndexed_def split: if_splits)
    qed
  qed
qed

lemma openAreIndexed_EventEnd:
  assumes w: "wellIndexed t" and o: "openAreIndexed t"
  shows "openAreIndexed (snd (EventEnd e now t))"
proof (cases "eventToSession t e")
  case None
  then show ?thesis using o by (simp add: EventEnd_def)
next
  case (Some s)
  have s: "s < length (heap t)" using w Some by (simp add: wellIndexed_def allocated_def)
  have sub: "tracked (snd (EventEnd e now t)) \<subseteq> tracked t"
    using Some by (auto simp add: EventEnd_def Let_def dispatchOnSessionEnd_def tracked_def)
  have hp: "heap (snd (EventEnd e now t)) =
      (heap t)[s := (heap t ! s)\<lparr>events := events (heap t ! s) - {e},
                     metadata := (metadata (heap t ! s))\<lparr>Updated := now\<rparr>\<rparr>]"
    using Some by (simp add: EventEnd_def Let_def)
  show ?thesis
    unfolding openAreIndexed_def
  proof (intro ballI)
    fix a e'
    assume a: "a \<in> tracked (snd (EventEnd e now t))"
      and e': "e' \<in> events (heap (snd (EventEnd e now t)) ! a)"
    have at: "a \<in> tracked t" using a sub by auto
    have old: "e' \<in> events (heap t ! a)" and ne: "e' \<noteq> e"
      using e' s Some o at
      by (auto simp add: hp nth_list_update openAreIndexed_def split: if_splits)
    show "eventToSession (snd (EventEnd e now t)) e' = Some a"
      using o at old ne by (simp add: eventToSession_EventEnd openAreIndexed_def)
  qed
qed

lemma openAreIndexed_run:
  "startsUnambiguous calls t \<Longrightarrow> wellIndexed t \<Longrightarrow> openAreIndexed t \<Longrightarrow>
   openAreIndexed (run calls t)"
proof (induction calls arbitrary: t)
  case Nil
  then show ?case by (simp add: run_def)
next
  case (Cons c calls)
  have r: "run (c # calls) t = run calls (step c t)" by (simp add: run_def)
  have w: "wellIndexed (step c t)" using Cons.prems(2) by (rule wellIndexed_step)
  have o: "openAreIndexed (step c t)" and u: "startsUnambiguous calls (step c t)"
    using Cons.prems
    by (cases c; simp add: openAreIndexed_EventStart openAreIndexed_EventEnd)+
  show ?case using Cons.IH [OF u w o] r by simp
qed

lemma finiteIndexes_EventStart:
  "finiteIndexes t \<Longrightarrow> finiteIndexes (snd (EventStart k e now t))"
  by (simp add: EventStart_cases finiteIndexes_def split: option.splits)

lemma finiteIndexes_EventEnd:
  "finiteIndexes t \<Longrightarrow> finiteIndexes (snd (EventEnd e now t))"
  by (auto simp add: EventEnd_def Let_def dispatchOnSessionEnd_def finiteIndexes_def
      split: option.splits)

lemma finiteIndexes_run: "finiteIndexes t \<Longrightarrow> finiteIndexes (run calls t)"
proof (induction calls arbitrary: t)
  case Nil
  then show ?case by (simp add: run_def)
next
  case (Cons c calls)
  have "finiteIndexes (step c t)"
    using Cons.prems
    by (cases c) (simp_all add: finiteIndexes_EventStart finiteIndexes_EventEnd)
  then show ?case using Cons.IH [of "step c t"] by (simp add: run_def)
qed

lemma finiteIndexes_NewTracker: "finiteIndexes (NewTracker init opts)"
  by (simp add: NewTracker_def Let_def finiteIndexes_def)

lemma openAreIndexed_NewTracker: "openAreIndexed (NewTracker init opts)"
  by (simp add: NewTracker_def Let_def openAreIndexed_def tracked_def)

lemma card_index_eq_sum_open:
  assumes w: "indexedAreOpen t" and r: "indexedAreTracked t" and o: "openAreIndexed t"
    and f: "finiteIndexes t"
  shows "card (dom (eventToSession t)) = (\<Sum>a \<in> tracked t. card (events (heap t ! a)))"
proof -
  have un: "dom (eventToSession t) = (\<Union>a \<in> tracked t. events (heap t ! a))"
  proof (intro set_eqI iffI)
    fix e assume "e \<in> dom (eventToSession t)"
    then obtain a where "eventToSession t e = Some a" by auto
    then have "e \<in> events (heap t ! a)" "a \<in> tracked t"
      using w r by (auto simp add: indexedAreOpen_def indexedAreTracked_def)
    then show "e \<in> (\<Union>a \<in> tracked t. events (heap t ! a))" by auto
  next
    fix e assume "e \<in> (\<Union>a \<in> tracked t. events (heap t ! a))"
    then obtain a where "a \<in> tracked t" "e \<in> events (heap t ! a)" by auto
    then have "eventToSession t e = Some a" using o by (rule openAreIndexedD [rotated])
    then show "e \<in> dom (eventToSession t)" by auto
  qed
  have fin: "finite (tracked t)"
    using f by (simp add: finiteIndexes_def tracked_def finite_ran)
  have each: "\<forall>a \<in> tracked t. finite (events (heap t ! a))"
  proof
    fix a assume "a \<in> tracked t"
    then have "events (heap t ! a) \<subseteq> dom (eventToSession t)" using un by auto
    then show "finite (events (heap t ! a))"
      using f by (auto simp add: finiteIndexes_def intro: finite_subset)
  qed
  have disj: "\<forall>a \<in> tracked t. \<forall>b \<in> tracked t. a \<noteq> b \<longrightarrow>
      events (heap t ! a) \<inter> events (heap t ! b) = {}"
  proof (intro ballI impI)
    fix a b assume ab: "a \<in> tracked t" "b \<in> tracked t" "a \<noteq> b"
    show "events (heap t ! a) \<inter> events (heap t ! b) = {}"
    proof (rule ccontr)
      assume "events (heap t ! a) \<inter> events (heap t ! b) \<noteq> {}"
      then obtain e where e: "e \<in> events (heap t ! a)" "e \<in> events (heap t ! b)" by auto
      have "eventToSession t e = Some a" using o ab(1) e(1) by (rule openAreIndexedD)
      moreover have "eventToSession t e = Some b" using o ab(2) e(2) by (rule openAreIndexedD)
      ultimately show False using ab(3) by simp
    qed
  qed
  show ?thesis
    unfolding un using fin each disj by (rule card_UN_disjoint)
qed

lemma sharedEventTracker_eq:
  "sharedEventTracker =
    \<lparr>heap = [\<lparr>data = ''x'', events = {''a''}, retired = False,
               metadata = \<lparr>Created = 0, Updated = 0\<rparr>\<rparr>,
             \<lparr>data = ''y'', events = {''a''}, retired = False,
               metadata = \<lparr>Created = 1, Updated = 1\<rparr>\<rparr>],
      sessions = [''x'' \<mapsto> 0, ''y'' \<mapsto> 1],
      eventToSession = [''a'' \<mapsto> 1],
      retiredSessions = {},
      sessionInitFunc = (\<lambda>k. k),
      inactivityTimeout = 5,
      maxSessionTimeout = None,
      onSessionEnd = True,
      initCalls = [''x'', ''y''],
      ended = []\<rparr>"
  by (simp add: sharedEventTracker_def eval_defs)

lemma tracked_sharedEventTracker: "tracked sharedEventTracker = {0, 1}"
  by (auto simp add: sharedEventTracker_eq tracked_def)

subsection \<open>The eviction decision\<close>

text \<open>
  C2. \<^verbatim>\<open>janitorShouldRemove\<close> answers no for a session that has an open event. For a
  session without open events it answers yes exactly when the session's age
  \<^verbatim>\<open>now.Sub(Created)\<close> exceeds the maximum lifetime, if one is configured, and otherwise exactly
  when its idle time \<^verbatim>\<open>now.Sub(Updated)\<close> exceeds the inactivity timeout. The decision is a
  function of the session alone and writes nothing: the janitor's visits, which are its
  only callers, leave every allocated session as it was.
\<close>

theorem janitorShouldRemove_decision:
  "(events s \<noteq> {} \<longrightarrow> \<not> janitorShouldRemove now it mx s) \<and>
   (events s = {} \<longrightarrow> mx = Some m \<longrightarrow>
      janitorShouldRemove now it mx s = (m < time_Sub now (Created (metadata s)))) \<and>
   (events s = {} \<longrightarrow> mx = None \<longrightarrow>
      janitorShouldRemove now it mx s = (it < time_Sub now (Updated (metadata s)))) \<and>
   heap (janitorVisitSession now (k, a) t) = heap t \<and>
   heap (janitorVisitRetired now a t) = heap t"
  by (simp add: janitorShouldRemove_def janitorVisitSession_def janitorVisitRetired_def
      janitorRemoveSession_def janitorRemoveRetired_def)

theorem janitorShouldRemove_decision_witness:
  "janitorShouldRemove 16 5 None idleSession \<and>
   \<not> janitorShouldRemove 15 5 None idleSession \<and>
   janitorShouldRemove 16 5 (Some 15) idleSession \<and>
   \<not> janitorShouldRemove 15 5 (Some 15) idleSession \<and>
   \<not> janitorShouldRemove 100 5 (Some 15) (idleSession\<lparr>events := {''a''}\<rparr>)"
  using janitorShouldRemove_decision [of idleSession 16 5 None 0 "''x''" 0 idleTracker]
    janitorShouldRemove_decision [of idleSession 15 5 None 0 "''x''" 0 idleTracker]
    janitorShouldRemove_decision [of idleSession 16 5 "Some 15" 15 "''x''" 0 idleTracker]
    janitorShouldRemove_decision [of idleSession 15 5 "Some 15" 15 "''x''" 0 idleTracker]
    janitorShouldRemove_decision
      [of "idleSession\<lparr>events := {''a''}\<rparr>" 100 5 "Some 15" 15 "''x''" 0 idleTracker]
  by (simp add: idleSession_def time_Sub_def minDuration_def maxDuration_def)

subsection \<open>Ending an unknown event\<close>

text \<open>
  C10. \<^verbatim>\<open>EventEnd\<close> of an event identifier that the reverse index does not hold returns
  the error and the tracker as it was: the primary map, the reverse index, the retired
  set, every session and the log of dispatched callbacks are unchanged.
\<close>

theorem EventEnd_unknown_event_unchanged:
  "eventToSession t e = None \<Longrightarrow> EventEnd e now t = (Some (NotAssociated e), t)"
  by (simp add: EventEnd_def)

theorem EventEnd_unknown_event_unchanged_witness:
  "eventToSession (run [Start ''x'' ''a'' 0] splitTracker) ''b'' = None \<and>
   EventEnd ''b'' 1 (run [Start ''x'' ''a'' 0] splitTracker) =
     (Some (NotAssociated ''b''), run [Start ''x'' ''a'' 0] splitTracker)"
  using EventEnd_unknown_event_unchanged [of "run [Start ''x'' ''a'' 0] splitTracker" "''b''" 1]
  by (simp add: eval_defs)

subsection \<open>Starting an event on an expired session\<close>

text \<open>
  C1. With a maximum lifetime \<open>m\<close> configured, \<^verbatim>\<open>EventStart(k, e)\<close> at a time \<open>now\<close> at
  which the primary session \<open>s\<close> of \<open>k\<close> is older than \<open>m\<close> splits: \<open>s\<close> is flagged
  retired, loses \<open>e\<close> from its open events and enters the retired set, while every other
  event indexed to \<open>s\<close> stays indexed to it; a session is allocated at a new address with
  the payload \<open>sessionInitFunc k\<close>, the open events \<open>{e}\<close> and created = updated = now,
  becomes the primary session of \<open>k\<close>, gets \<open>e\<close> indexed to it, and is returned.
\<close>

theorem EventStart_split:
  assumes "sessions t k = Some s" and "s < length (heap t)"
    and "maxSessionTimeout t = Some m"
    and "m < time_Sub now (Created (metadata (heap t ! s)))"
  shows "fst (EventStart k e now t) = length (heap t) \<and>
    length (heap t) \<noteq> s \<and>
    heap (snd (EventStart k e now t)) =
      (heap t)[s := (heap t ! s)\<lparr>retired := True, events := events (heap t ! s) - {e}\<rparr>] @
      [\<lparr>data = sessionInitFunc t k, events = {e}, retired = False,
        metadata = \<lparr>Created = now, Updated = now\<rparr>\<rparr>] \<and>
    heap (snd (EventStart k e now t)) ! s =
      (heap t ! s)\<lparr>retired := True, events := events (heap t ! s) - {e}\<rparr> \<and>
    heap (snd (EventStart k e now t)) ! length (heap t) =
      \<lparr>data = sessionInitFunc t k, events = {e}, retired = False,
       metadata = \<lparr>Created = now, Updated = now\<rparr>\<rparr> \<and>
    retiredSessions (snd (EventStart k e now t)) = insert s (retiredSessions t) \<and>
    sessions (snd (EventStart k e now t)) = (sessions t)(k \<mapsto> length (heap t)) \<and>
    eventToSession (snd (EventStart k e now t)) = (eventToSession t)(e \<mapsto> length (heap t)) \<and>
    (\<forall>e'. e' \<noteq> e \<and> eventToSession t e' = Some s \<longrightarrow>
        eventToSession (snd (EventStart k e now t)) e' = Some s) \<and>
    initCalls (snd (EventStart k e now t)) = initCalls t @ [k] \<and>
    ended (snd (EventStart k e now t)) = ended t"
  using assms
  by (simp add: EventStart_def expired_def installNewSession_def Let_def nth_append)

theorem EventStart_split_witness:
  "sessions twoOpenTracker ''x'' = Some 0 \<and> 0 < length (heap twoOpenTracker) \<and>
   maxSessionTimeout twoOpenTracker = Some 2 \<and>
   2 < time_Sub 3 (Created (metadata (heap twoOpenTracker ! 0))) \<and>
   events (heap twoOpenTracker ! 0) = {''a'', ''c''} \<and>
   fst (EventStart ''x'' ''c'' 3 twoOpenTracker) = 1 \<and>
   heap (snd (EventStart ''x'' ''c'' 3 twoOpenTracker)) =
     [\<lparr>data = ''x'', events = {''a''}, retired = True, metadata = \<lparr>Created = 0, Updated = 1\<rparr>\<rparr>,
      \<lparr>data = ''x'', events = {''c''}, retired = False, metadata = \<lparr>Created = 3, Updated = 3\<rparr>\<rparr>] \<and>
   retiredSessions (snd (EventStart ''x'' ''c'' 3 twoOpenTracker)) = {0} \<and>
   sessions (snd (EventStart ''x'' ''c'' 3 twoOpenTracker)) ''x'' = Some 1 \<and>
   eventToSession (snd (EventStart ''x'' ''c'' 3 twoOpenTracker)) ''c'' = Some 1 \<and>
   eventToSession (snd (EventStart ''x'' ''c'' 3 twoOpenTracker)) ''a'' = Some 0"
  using EventStart_split [of twoOpenTracker "''x''" 0 2 3 "''c''"]
  by (auto simp add: eval_defs)

subsection \<open>Ending a known event\<close>

text \<open>
  C3. \<^verbatim>\<open>EventEnd(e)\<close> for an event that the reverse index maps to a session \<open>s\<close> holding
  it open removes \<open>e\<close> from the open events of \<open>s\<close>, sets the updated time of \<open>s\<close> to
  now, removes \<open>e\<close> from the reverse index and returns no error. It removes \<open>s\<close> from
  the retired set, and dispatches the callback (when one is configured) with the payload
  and the metadata of \<open>s\<close>, exactly when \<open>s\<close> is retired and \<open>e\<close> was its only open
  event. An \<^verbatim>\<open>EventEnd\<close> of an unknown event dispatches nothing.
\<close>

theorem EventEnd_known_event:
  "(eventToSession t e = None \<longrightarrow>
      ended (snd (EventEnd e now t)) = ended t \<and>
      retiredSessions (snd (EventEnd e now t)) = retiredSessions t) \<and>
   (eventToSession t e = Some s \<and> s < length (heap t) \<and> e \<in> events (heap t ! s) \<longrightarrow>
      fst (EventEnd e now t) = None \<and>
      heap (snd (EventEnd e now t)) =
        (heap t)[s := (heap t ! s)\<lparr>events := events (heap t ! s) - {e},
                       metadata := (metadata (heap t ! s))\<lparr>Updated := now\<rparr>\<rparr>] \<and>
      events (heap (snd (EventEnd e now t)) ! s) = events (heap t ! s) - {e} \<and>
      Updated (metadata (heap (snd (EventEnd e now t)) ! s)) = now \<and>
      eventToSession (snd (EventEnd e now t)) = (eventToSession t)(e := None) \<and>
      sessions (snd (EventEnd e now t)) = sessions t \<and>
      retiredSessions (snd (EventEnd e now t)) =
        (if retired (heap t ! s) \<and> events (heap t ! s) = {e}
         then retiredSessions t - {s} else retiredSessions t) \<and>
      ended (snd (EventEnd e now t)) =
        (if retired (heap t ! s) \<and> events (heap t ! s) = {e} \<and> onSessionEnd t
         then ended t @ [(s, data (heap t ! s),
                          \<lparr>Created = Created (metadata (heap t ! s)), Updated = now\<rparr>)]
         else ended t))"
  by (auto simp add: EventEnd_def Let_def dispatchOnSessionEnd_def)

theorem EventEnd_known_event_witness:
  "eventToSession drainingTracker ''a'' = Some 0 \<and> 0 < length (heap drainingTracker) \<and>
   ''a'' \<in> events (heap drainingTracker ! 0) \<and>
   retired (heap drainingTracker ! 0) \<and>
   fst (EventEnd ''a'' 4 drainingTracker) = None \<and>
   events (heap (snd (EventEnd ''a'' 4 drainingTracker)) ! 0) = {} \<and>
   eventToSession (snd (EventEnd ''a'' 4 drainingTracker)) ''a'' = None \<and>
   retiredSessions (snd (EventEnd ''a'' 4 drainingTracker)) = {} \<and>
   ended (snd (EventEnd ''a'' 4 drainingTracker)) = [(0, ''x'', \<lparr>Created = 0, Updated = 4\<rparr>)] \<and>
   eventToSession drainingTracker ''b'' = Some 1 \<and>
   \<not> retired (heap drainingTracker ! 1) \<and>
   ended (snd (EventEnd ''b'' 4 drainingTracker)) = [] \<and>
   eventToSession drainingTracker ''z'' = None \<and>
   ended (snd (EventEnd ''z'' 4 drainingTracker)) = []"
  using EventEnd_known_event [of drainingTracker "''a''" 4 0]
    EventEnd_known_event [of drainingTracker "''b''" 4 1]
    EventEnd_known_event [of drainingTracker "''z''" 4 0]
  by (simp add: eval_defs)

subsection \<open>The metadata passed when a retired session drains\<close>

text \<open>
  C6, as the specification states it: a session created at time 0 is split away at a
  time \<open>t\<close> beyond the maximum lifetime while it holds an open event, that event ends at
  \<open>t' > t\<close>, and the callback is passed created and updated times that both lie before
  \<open>t\<close>. With a maximum lifetime of 2, the split at 3 and the end at 4 the callback is
  passed the updated time 4: \<^verbatim>\<open>EventEnd\<close> writes \<^verbatim>\<open>Updated\<close> before it dispatches.
\<close>

theorem split_callback_counterexample:
  "maxSessionTimeout splitTracker = Some 2 \<and> onSessionEnd splitTracker \<and>
   fst (EventStart ''x'' ''a'' 0 splitTracker) = 0 \<and>
   fst (EventStart ''x'' ''b'' 3 (run [Start ''x'' ''a'' 0] splitTracker)) = 1 \<and>
   ended (run [Start ''x'' ''a'' 0, Start ''x'' ''b'' 3] splitTracker) = [] \<and>
   ended (run [Start ''x'' ''a'' 0, Start ''x'' ''b'' 3, End ''a'' 4] splitTracker) =
     [(0, ''x'', \<lparr>Created = 0, Updated = 4\<rparr>)] \<and>
   \<not> Updated \<lparr>Created = 0, Updated = 4\<rparr> < 3"
  by (simp add: eval_defs)

text \<open>
  C6, amended: in that scenario nothing is dispatched at the split, and the end of the
  open event at \<open>t'\<close> dispatches the callback once, for the session split away, with its
  payload, the created time 0 of before the split and the updated time \<open>t'\<close>, the time of
  the \<^verbatim>\<open>EventEnd\<close> that drained it.
\<close>

theorem split_callback_metadata:
  assumes "e0 \<noteq> e1" and "m < time_Sub t 0"
  shows "ended (run [Start k e0 0, Start k e1 t, End e0 t']
            (NewTracker init [WithMaxSessionTimeout m, WithOnSessionEnd])) =
         [(0, init k, \<lparr>Created = 0, Updated = t'\<rparr>)] \<and>
         ended (run [Start k e0 0, Start k e1 t]
            (NewTracker init [WithMaxSessionTimeout m, WithOnSessionEnd])) = []"
  using assms
  by (simp add: run_def NewTracker_def defaultConfig_def WithMaxSessionTimeout_def
      WithOnSessionEnd_def EventStart_def EventEnd_def installNewSession_def expired_def
      dispatchOnSessionEnd_def Let_def)

theorem split_callback_metadata_witness:
  "''a'' \<noteq> ''b'' \<and> (2::int) < time_Sub 3 0 \<and>
   ended (run [Start ''x'' ''a'' 0, Start ''x'' ''b'' 3, End ''a'' 4]
            (NewTracker (\<lambda>k. k) [WithMaxSessionTimeout 2, WithOnSessionEnd])) =
         [(0, ''x'', \<lparr>Created = 0, Updated = 4\<rparr>)]"
  using split_callback_metadata [of "''a''" "''b''" 2 3 "''x''" 4 "\<lambda>k. k"]
  by (simp add: time_Sub_def minDuration_def maxDuration_def)

subsection \<open>The identity check of the janitor\<close>

text \<open>
  C9. For a snapshot entry \<open>(k, s)\<close> that the decision selects, the janitor deletes the
  primary mapping of \<open>k\<close> exactly when the store, at the time of the deletion, still maps
  \<open>k\<close> to the very session \<open>s\<close>, and it dispatches the callback for \<open>s\<close> only then (and
  only when one is configured). When \<open>k\<close> is mapped to another session by then, or to
  none, the tracker is left exactly as it was.
\<close>

theorem janitorRemoveSession_identity_check:
  "sessions (janitorRemoveSession k s t) =
     (if sessions t k = Some s then (sessions t)(k := None) else sessions t) \<and>
   ended (janitorRemoveSession k s t) =
     (if sessions t k = Some s \<and> onSessionEnd t
      then ended t @ [(s, data (heap t ! s), metadata (heap t ! s))] else ended t) \<and>
   (sessions t k \<noteq> Some s \<longrightarrow> janitorRemoveSession k s t = t) \<and>
   (janitorVisitSession now (k, s) t =
      (if janitorShouldRemove now (inactivityTimeout t) (maxSessionTimeout t) (heap t ! s)
       then janitorRemoveSession k s t else t))"
  by (simp add: janitorRemoveSession_def dispatchOnSessionEnd_def janitorVisitSession_def)

theorem janitorRemoveSession_identity_check_witness:
  "sessions replacedTracker ''x'' = Some 1 \<and>
   janitorShouldRemove 100 (inactivityTimeout replacedTracker) (maxSessionTimeout replacedTracker)
     (heap replacedTracker ! 0) \<and>
   janitorVisitSession 100 (''x'', 0) replacedTracker = replacedTracker \<and>
   sessions (janitorVisitSession 100 (''x'', 1) replacedTracker) ''x'' = None \<and>
   ended (janitorVisitSession 100 (''x'', 1) replacedTracker) =
     ended replacedTracker @ [(1, ''x'', \<lparr>Created = 5, Updated = 6\<rparr>)]"
  using janitorRemoveSession_identity_check [of "''x''" 0 replacedTracker 100]
    janitorRemoveSession_identity_check [of "''x''" 1 replacedTracker 100]
  by (simp add: eval_defs)

subsection \<open>The sweep of the retired set\<close>

text \<open>
  C4, as the specification states it: a retired session that is idle or expired at a
  tick is removed from the retired set by the sweep, and the callback is dispatched,
  even while it holds stale open events. Session 0 of \<open>drainingTracker\<close> is retired, was
  created and last updated at time 0 and still holds the event \<open>a\<close>; at the tick of time
  1000 it is older than the maximum lifetime 2 and idle for longer than the timeout 5,
  and the sweep leaves it in the retired set and dispatches nothing.
\<close>

theorem retired_sweep_counterexample:
  "0 \<in> retiredSessions drainingTracker \<and>
   events (heap drainingTracker ! 0) = {''a''} \<and>
   maxSessionTimeout drainingTracker = Some 2 \<and>
   2 < time_Sub 1000 (Created (metadata (heap drainingTracker ! 0))) \<and>
   inactivityTimeout drainingTracker = 5 \<and>
   5 < time_Sub 1000 (Updated (metadata (heap drainingTracker ! 0))) \<and>
   onSessionEnd drainingTracker \<and>
   0 \<in> retiredSessions (janitorTick 1000 [''x''] [0] drainingTracker) \<and>
   ended (janitorTick 1000 [''x''] [0] drainingTracker) = []"
  by (simp add: eval_defs)

text \<open>
  C4, amended: for a session \<open>a\<close> of the retired set that the sweep of a tick visits,
  if \<^verbatim>\<open>janitorShouldRemove\<close> holds of it (it has no open event and, by C2, is expired or
  idle) the tick removes it from the retired set and dispatches the configured callback
  with its payload and metadata; if it holds an open event the tick leaves it in the
  retired set and dispatches no callback for it, whatever its age.
\<close>

theorem janitorTick_retired_sweep:
  assumes "a \<in> retiredSessions t" and "a \<in> set order"
  shows "(janitorShouldRemove now (inactivityTimeout t) (maxSessionTimeout t) (heap t ! a) \<longrightarrow>
            a \<notin> retiredSessions (janitorTick now keys order t) \<and>
            (onSessionEnd t \<longrightarrow>
               (a, data (heap t ! a), metadata (heap t ! a))
                 \<in> set (ended (janitorTick now keys order t)))) \<and>
         (events (heap t ! a) \<noteq> {} \<longrightarrow>
            a \<in> retiredSessions (janitorTick now keys order t) \<and>
            filter (\<lambda>x. fst x = a) (ended (janitorTick now keys order t)) =
              filter (\<lambda>x. fst x = a) (ended t))"
proof -
  let ?t1 = "fold (janitorVisitSession now) (snapshotOf keys t) t"
  have fr: "heap ?t1 = heap t" "retiredSessions ?t1 = retiredSessions t"
    "inactivityTimeout ?t1 = inactivityTimeout t" "maxSessionTimeout ?t1 = maxSessionTimeout t"
    "onSessionEnd ?t1 = onSessionEnd t"
    by (simp_all add: fold_janitorVisitSession_frame)
  have snap: "a \<in> set (snapshotRetiredOf order ?t1)"
    using assms by (simp add: snapshotRetiredOf_def fr)
  have ret: "retiredSessions (janitorTick now keys order t) =
      retiredSessions t - {b \<in> set (snapshotRetiredOf order ?t1).
        janitorShouldRemove now (inactivityTimeout t) (maxSessionTimeout t) (heap t ! b)}"
    by (simp add: janitorTick_def Let_def retiredSessions_fold_janitorVisitRetired fr)
  have en: "ended (janitorTick now keys order t) =
      ended ?t1 @
      (if onSessionEnd t
       then map (\<lambda>a. (a, data (heap t ! a), metadata (heap t ! a)))
           (filter (\<lambda>a. janitorShouldRemove now (inactivityTimeout t) (maxSessionTimeout t)
                          (heap t ! a)) (snapshotRetiredOf order ?t1))
       else [])"
    by (simp add: janitorTick_def Let_def ended_fold_janitorVisitRetired fr)
  have pos: "a \<notin> retiredSessions (janitorTick now keys order t) \<and>
            (onSessionEnd t \<longrightarrow>
               (a, data (heap t ! a), metadata (heap t ! a))
                 \<in> set (ended (janitorTick now keys order t)))"
    if d: "janitorShouldRemove now (inactivityTimeout t) (maxSessionTimeout t) (heap t ! a)"
    using d snap by (auto simp add: ret en)
  have neg: "a \<in> retiredSessions (janitorTick now keys order t) \<and>
            filter (\<lambda>x. fst x = a) (ended (janitorTick now keys order t)) =
              filter (\<lambda>x. fst x = a) (ended t)"
    if o: "events (heap t ! a) \<noteq> {}"
  proof -
    have nd: "\<not> janitorShouldRemove now (inactivityTimeout t) (maxSessionTimeout t) (heap t ! a)"
      using o by (simp add: janitorShouldRemove_def)
    have "filter (\<lambda>x. fst x = a) (ended ?t1) = filter (\<lambda>x. fst x = a) (ended t)"
      using nd by (rule ended_fold_janitorVisitSession_other)
    moreover have "filter (\<lambda>x. fst x = a)
        (map (\<lambda>a. (a, data (heap t ! a), metadata (heap t ! a)))
           (filter (\<lambda>a. janitorShouldRemove now (inactivityTimeout t) (maxSessionTimeout t)
                          (heap t ! a)) (snapshotRetiredOf order ?t1))) = []"
      using nd by (auto simp add: filter_empty_conv)
    ultimately show ?thesis using nd assms(1) by (simp add: ret en)
  qed
  show ?thesis using pos neg by blast
qed

theorem janitorTick_retired_sweep_witness:
  "0 \<in> retiredSessions emptiedRetiredTracker \<and> 0 \<in> set [0::nat] \<and>
   janitorShouldRemove 4 (inactivityTimeout emptiedRetiredTracker)
     (maxSessionTimeout emptiedRetiredTracker) (heap emptiedRetiredTracker ! 0) \<and>
   onSessionEnd emptiedRetiredTracker \<and>
   0 \<notin> retiredSessions (janitorTick 4 [''x''] [0] emptiedRetiredTracker) \<and>
   (0, ''x'', \<lparr>Created = 0, Updated = 1\<rparr>)
      \<in> set (ended (janitorTick 4 [''x''] [0] emptiedRetiredTracker)) \<and>
   0 \<in> retiredSessions drainingTracker \<and>
   events (heap drainingTracker ! 0) \<noteq> {} \<and>
   0 \<in> retiredSessions (janitorTick 1000 [''x''] [0] drainingTracker) \<and>
   filter (\<lambda>x. fst x = 0) (ended (janitorTick 1000 [''x''] [0] drainingTracker)) = []"
  using janitorTick_retired_sweep [of 0 emptiedRetiredTracker "[0]" 4 "[''x'']"]
    janitorTick_retired_sweep [of 0 drainingTracker "[0]" 1000 "[''x'']"]
  by (simp add: eval_defs)

subsection \<open>Reuse of the primary session\<close>

text \<open>
  C7. A sequence of \<^verbatim>\<open>EventStart\<close> calls for one dedup key \<open>k\<close> that has no primary
  session at the first call, with every later call made while the session is not older
  than the configured maximum lifetime (if any), returns the same session at every call:
  the one allocated by the first call. The initializer is called once, with \<open>k\<close>, and
  its result stays the payload. The session's open events are the event identifiers of
  all the calls, and its updated time is the time of the last call (every reuse adds its
  event and sets the updated time).
\<close>

theorem EventStart_reuses_session:
  assumes "sessions t k = None"
    and "\<forall>c \<in> set rest. \<forall>m. maxSessionTimeout t = Some m \<longrightarrow> time_Sub (snd c) now0 \<le> m"
  shows "fst (startAll k ((e0, now0) # rest) t) = replicate (Suc (length rest)) (length (heap t)) \<and>
    initCalls (snd (startAll k ((e0, now0) # rest) t)) = initCalls t @ [k] \<and>
    sessions (snd (startAll k ((e0, now0) # rest) t)) k = Some (length (heap t)) \<and>
    heap (snd (startAll k ((e0, now0) # rest) t)) ! length (heap t) =
      \<lparr>data = sessionInitFunc t k,
       events = insert e0 (fst ` set rest),
       retired = False,
       metadata = \<lparr>Created = now0, Updated = snd (last ((e0, now0) # rest))\<rparr>\<rparr>"
proof -
  let ?a = "length (heap t)"
  let ?t1 = "snd (EventStart k e0 now0 t)"
  have r: "fst (EventStart k e0 now0 t) = ?a"
    using assms(1) by (simp add: EventStart_def installNewSession_def Let_def)
  have t1: "?t1 = t\<lparr>heap := heap t @ [\<lparr>data = sessionInitFunc t k, events = {e0}, retired = False,
                 metadata = \<lparr>Created = now0, Updated = now0\<rparr>\<rparr>],
               initCalls := initCalls t @ [k],
               sessions := (sessions t)(k \<mapsto> ?a),
               eventToSession := (eventToSession t)(e0 \<mapsto> ?a)\<rparr>"
    using assms(1) by (simp add: EventStart_def installNewSession_def Let_def)
  have p1: "sessions ?t1 k = Some ?a" and p2: "?a < length (heap ?t1)"
    by (simp_all add: t1)
  have p3: "\<forall>c \<in> set rest. \<not> expired (snd c) ?t1 ?a"
    using assms(2) by (auto simp add: t1 expired_def split: option.splits)
  note re = startAll_reuse [OF p1 p2 p3]
  have unfold: "startAll k ((e0, now0) # rest) t =
      (?a # fst (startAll k rest ?t1), snd (startAll k rest ?t1))"
    using r by (simp only: startAll_Cons)
  have whole: "heap (snd (startAll k rest ?t1)) ! ?a =
      \<lparr>data = data (heap (snd (startAll k rest ?t1)) ! ?a),
       events = events (heap (snd (startAll k rest ?t1)) ! ?a),
       retired = retired (heap (snd (startAll k rest ?t1)) ! ?a),
       metadata = \<lparr>Created = Created (metadata (heap (snd (startAll k rest ?t1)) ! ?a)),
                   Updated = Updated (metadata (heap (snd (startAll k rest ?t1)) ! ?a))\<rparr>\<rparr>"
    by simp
  show ?thesis
    apply (simp only: unfold fst_conv snd_conv)
    apply (subst whole)
    using re apply (simp add: t1)
    done
qed

theorem EventStart_reuses_session_witness:
  "sessions lifetimeTracker ''x'' = None \<and>
   maxSessionTimeout lifetimeTracker = Some 10 \<and>
   time_Sub 3 0 \<le> 10 \<and> time_Sub 7 0 \<le> 10 \<and>
   fst (startAll ''x'' [(''a'', 0), (''b'', 3), (''c'', 7)] lifetimeTracker) = [0, 0, 0] \<and>
   initCalls (snd (startAll ''x'' [(''a'', 0), (''b'', 3), (''c'', 7)] lifetimeTracker)) = [''x''] \<and>
   heap (snd (startAll ''x'' [(''a'', 0), (''b'', 3), (''c'', 7)] lifetimeTracker)) ! 0 =
     \<lparr>data = ''x'', events = {''a'', ''b'', ''c''}, retired = False,
      metadata = \<lparr>Created = 0, Updated = 7\<rparr>\<rparr>"
  using EventStart_reuses_session
    [of lifetimeTracker "''x''" "[(''b'', 3), (''c'', 7)]" 0 "''a''"]
  by (simp add: NewTracker_def defaultConfig_def WithMaxSessionTimeout_def lifetimeTracker_def
      time_Sub_def minDuration_def maxDuration_def del: startAll.simps)

subsection \<open>When ending an event fails\<close>




subsection \<open>Consistency of the reverse index with the open events\<close>

text \<open>
  C5, as the specification states it: after every sequence of \<^verbatim>\<open>EventStart\<close> and
  \<^verbatim>\<open>EventEnd\<close> calls with arbitrary strings, every open event of a live or retired
  session is indexed to that session, and the size of the reverse index is the sum of the
  numbers of open events. After \<^verbatim>\<open>EventStart("x", "a")\<close> and \<^verbatim>\<open>EventStart("y", "a")\<close> the
  session of \<open>x\<close> holds \<open>a\<close> open while the index maps \<open>a\<close> to the session of \<open>y\<close>:
  the index has one entry and the two live sessions have two open events.
\<close>

theorem indexes_consistent_counterexample:
  "sessions sharedEventTracker ''x'' = Some 0 \<and>
   ''a'' \<in> events (heap sharedEventTracker ! 0) \<and>
   eventToSession sharedEventTracker ''a'' = Some 1 \<and>
   \<not> openAreIndexed sharedEventTracker \<and>
   card (dom (eventToSession sharedEventTracker)) = 1 \<and>
   (\<Sum>a \<in> tracked sharedEventTracker. card (events (heap sharedEventTracker ! a))) = 2"
proof -
  have a: "sessions sharedEventTracker ''x'' = Some 0"
    "''a'' \<in> events (heap sharedEventTracker ! 0)"
    "eventToSession sharedEventTracker ''a'' = Some 1"
    by (simp_all add: sharedEventTracker_eq)
  have "0 \<in> tracked sharedEventTracker" by (simp add: tracked_sharedEventTracker)
  then have b: "\<not> openAreIndexed sharedEventTracker"
    using a(2,3) openAreIndexedD [of sharedEventTracker 0 "''a''"] by auto
  have c: "card (dom (eventToSession sharedEventTracker)) = 1"
    by (simp add: sharedEventTracker_eq)
  have d: "(\<Sum>a \<in> tracked sharedEventTracker. card (events (heap sharedEventTracker ! a))) = 2"
    unfolding tracked_sharedEventTracker by (simp add: sharedEventTracker_eq)
  show ?thesis using a b c d by simp
qed

text \<open>
  C5, amended: after every sequence of \<^verbatim>\<open>EventStart\<close> and \<^verbatim>\<open>EventEnd\<close> calls on a new
  tracker, with arbitrary strings, every entry of the reverse index maps an event to a
  session that holds it open. If moreover no \<^verbatim>\<open>EventStart(k, e)\<close> of the sequence is
  called while \<open>e\<close> is indexed to a session other than the primary session of \<open>k\<close>, then
  every open event of a live or retired session is indexed to that session, and the size
  of the reverse index equals the sum of the numbers of open events over the live and
  retired sessions.
\<close>

theorem indexes_consistent:
  "indexedAreOpen (run calls (NewTracker init opts)) \<and>
   (startsUnambiguous calls (NewTracker init opts) \<longrightarrow>
      openAreIndexed (run calls (NewTracker init opts)) \<and>
      card (dom (eventToSession (run calls (NewTracker init opts)))) =
        (\<Sum>a \<in> tracked (run calls (NewTracker init opts)).
            card (events (heap (run calls (NewTracker init opts)) ! a))))"
proof -
  let ?t = "run calls (NewTracker init opts)"
  have w: "wellIndexed ?t" by (simp add: wellIndexed_run wellIndexed_NewTracker)
  then have i: "indexedAreOpen ?t" by (simp add: wellIndexed_def)
  have r: "indexedAreTracked ?t"
    by (simp add: indexedAreTracked_run wellIndexed_NewTracker indexedAreTracked_NewTracker)
  have f: "finiteIndexes ?t" by (simp add: finiteIndexes_run finiteIndexes_NewTracker)
  have o: "openAreIndexed ?t" if "startsUnambiguous calls (NewTracker init opts)"
    using that wellIndexed_NewTracker openAreIndexed_NewTracker by (rule openAreIndexed_run)
  show ?thesis
    using i card_index_eq_sum_open [OF i r o f] o by auto
qed

theorem indexes_consistent_witness:
  "startsUnambiguous [Start ''x'' ''a'' 0, Start ''x'' ''b'' 3, Start ''y'' ''c'' 4, End ''a'' 5]
     splitTracker \<and>
   openAreIndexed
     (run [Start ''x'' ''a'' 0, Start ''x'' ''b'' 3, Start ''y'' ''c'' 4, End ''a'' 5] splitTracker) \<and>
   indexedAreOpen
     (run [Start ''x'' ''a'' 0, Start ''x'' ''b'' 3, Start ''y'' ''c'' 4, End ''a'' 5] splitTracker) \<and>
   card (dom (eventToSession
     (run [Start ''x'' ''a'' 0, Start ''x'' ''b'' 3, Start ''y'' ''c'' 4, End ''a'' 5] splitTracker))) =
   (\<Sum>a \<in> tracked
       (run [Start ''x'' ''a'' 0, Start ''x'' ''b'' 3, Start ''y'' ''c'' 4, End ''a'' 5] splitTracker).
      card (events (heap
       (run [Start ''x'' ''a'' 0, Start ''x'' ''b'' 3, Start ''y'' ''c'' 4, End ''a'' 5] splitTracker)
         ! a)))"
proof -
  have h: "startsUnambiguous
      [Start ''x'' ''a'' 0, Start ''x'' ''b'' 3, Start ''y'' ''c'' 4, End ''a'' 5]
      (NewTracker (\<lambda>k. k) [WithInactivityTimeout 5, WithMaxSessionTimeout 2, WithOnSessionEnd])"
    by (simp add: eval_defs)
  show ?thesis
    using h indexes_consistent
      [of "[Start ''x'' ''a'' 0, Start ''x'' ''b'' 3, Start ''y'' ''c'' 4, End ''a'' 5]"
        "\<lambda>k. k" "[WithInactivityTimeout 5, WithMaxSessionTimeout 2, WithOnSessionEnd]"]
    by (simp only: splitTracker_def) 
qed

end
